theory Spec2Isabelle
  imports Main "HOL-Library.Sublist" "HOL-Library.Multiset"
begin

section \<open>The sentence-compression corpus loader (compression\_data.py)\<close>

text \<open>
  The module turns one corpus record (a sentence with its token graph and a compression
  text) into a list of tokens labelled KEEP (0) or DELETE (1). The functions of the
  module are embedded one by one below. Python exceptions are values of type
  \<open>error\<close>; a function that can raise returns \<open>error + 'a\<close>.
\<close>

subsection \<open>Errors and labels\<close>

datatype error = AssertionError | IndexError

text \<open>The docstring of \<open>get_labels\<close>: 0 keeps the current token, 1 deletes it.\<close>

abbreviation (input) KEEP :: int where "KEEP \<equiv> 0"
abbreviation (input) DELETE :: int where "DELETE \<equiv> 1"

subsection \<open>\<open>get_labels\<close> (lines 97 to 123)\<close>

text \<open>
  The while loop of lines 112 to 121. The loop state is the list \<open>labels\<close> and the two
  cursors. The reads \<open>sentence_tokens[sentence_index]\<close> and
  \<open>compression_tokens[compression_index]\<close> are guarded by the loop condition; the
  write \<open>labels[sentence_index] = 0\<close> raises IndexError in Python when the index is
  not below \<open>len(labels)\<close>, which the model keeps as a branch.
\<close>

function get_labels_loop ::
  "string list \<Rightarrow> string list \<Rightarrow> int list \<times> nat \<times> nat \<Rightarrow> error + int list" where
  "get_labels_loop sentence_tokens compression_tokens (labels, sentence_index, compression_index) =
     (if sentence_index < length sentence_tokens
         \<and> compression_index < length compression_tokens
      then
        (let sentence_token = sentence_tokens ! sentence_index;
             compression_token = compression_tokens ! compression_index
         in if sentence_token = compression_token
            then (if sentence_index < length labels
                  then get_labels_loop sentence_tokens compression_tokens
                         (labels[sentence_index := KEEP],
                          sentence_index + 1, compression_index + 1)
                  else Inl IndexError)
            else get_labels_loop sentence_tokens compression_tokens
                   (labels, sentence_index + 1, compression_index))
      else Inr labels)"
  by pat_completeness auto
termination
  by (relation "measure (\<lambda>(s, c, labels, si, ci). length s - si)") auto

declare get_labels_loop.simps [simp del]

definition get_labels :: "string list \<Rightarrow> string list \<Rightarrow> error + int list" where
  "get_labels sentence_tokens compression_tokens =
     (let sentence_tokens_length = length sentence_tokens;
          compression_tokens_length = length compression_tokens
      in if sentence_tokens_length \<ge> compression_tokens_length
         then get_labels_loop sentence_tokens compression_tokens
                (replicate sentence_tokens_length DELETE, 0, 0)
         else Inl AssertionError)"

text \<open>
  The loop as a step relation: the states \<open>(labels, sentence_index, compression_index)\<close>
  that the while loop of lines 112 to 121 passes through, starting from line 108 to 111.
  One rule per branch of the loop body.
\<close>

inductive get_labels_reach ::
  "string list \<Rightarrow> string list \<Rightarrow> int list \<times> nat \<times> nat \<Rightarrow> bool"
  for sentence_tokens compression_tokens where
  reach_init:
    "get_labels_reach sentence_tokens compression_tokens
       (replicate (length sentence_tokens) DELETE, 0, 0)"
| reach_match:
    "get_labels_reach sentence_tokens compression_tokens
       (labels, sentence_index, compression_index) \<Longrightarrow>
     sentence_index < length sentence_tokens \<Longrightarrow>
     compression_index < length compression_tokens \<Longrightarrow>
     sentence_tokens ! sentence_index = compression_tokens ! compression_index \<Longrightarrow>
     sentence_index < length labels \<Longrightarrow>
     get_labels_reach sentence_tokens compression_tokens
       (labels[sentence_index := KEEP], sentence_index + 1, compression_index + 1)"
| reach_skip:
    "get_labels_reach sentence_tokens compression_tokens
       (labels, sentence_index, compression_index) \<Longrightarrow>
     sentence_index < length sentence_tokens \<Longrightarrow>
     compression_index < length compression_tokens \<Longrightarrow>
     sentence_tokens ! sentence_index \<noteq> compression_tokens ! compression_index \<Longrightarrow>
     get_labels_reach sentence_tokens compression_tokens
       (labels, sentence_index + 1, compression_index)"

code_pred get_labels_reach .

subsection \<open>The greedy match in the words of the specification\<close>

text \<open>
  Section 4.3 of the specification: every label starts as DELETE; while both cursors are
  in range, equal tokens mark the sentence position KEEP and advance both cursors,
  unequal tokens advance the sentence cursor only. Here the two arguments are the parts
  of the two sequences at and after the cursors. This definition follows the
  specification, not the source: it is what the loop of the source is compared with.
\<close>

fun spec_greedy_labels :: "string list \<Rightarrow> string list \<Rightarrow> int list" where
  "spec_greedy_labels [] cs = []"
| "spec_greedy_labels (s # ss) [] = DELETE # spec_greedy_labels ss []"
| "spec_greedy_labels (s # ss) (c # cs) =
     (if s = c then KEEP # spec_greedy_labels ss cs else DELETE # spec_greedy_labels ss (c # cs))"

text \<open>The sentence tokens at the positions labelled KEEP, in order.\<close>

definition kept_forms :: "string list \<Rightarrow> int list \<Rightarrow> string list" where
  "kept_forms sentence_tokens labels =
     map fst (filter (\<lambda>(t, l). l = KEEP) (zip sentence_tokens labels))"

subsection \<open>Python string operations\<close>

text \<open>
  Strings are lists of characters, and the model is one of ASCII text: \<open>lower\<close> maps
  the ASCII capital letters to the small ones and leaves every other character as it
  is (Python lowercases the letters outside ASCII as well); \<open>startswith\<close>, \<open>endswith\<close> and
  \<open>split(" ")\<close> are Python's: splitting on single spaces keeps empty pieces, and the
  empty string splits into one empty piece. The slices of the source are written with
  \<open>take\<close> and \<open>drop\<close>: \<open>t[:-k]\<close> is \<open>take (length t - k) t\<close> and \<open>t[-k:]\<close> is
  \<open>drop (length t - k) t\<close>, where the truncating subtraction on \<open>nat\<close> is the clamping
  that Python applies to a slice bound before the start of the string.
\<close>

definition lower_char :: "char \<Rightarrow> char" where
  "lower_char ch =
     (case map_of (zip ''ABCDEFGHIJKLMNOPQRSTUVWXYZ'' ''abcdefghijklmnopqrstuvwxyz'') ch of
        Some l \<Rightarrow> l
      | None \<Rightarrow> ch)"

definition lower :: "string \<Rightarrow> string" where
  "lower str = map lower_char str"

definition startswith :: "string \<Rightarrow> string \<Rightarrow> bool" where
  "startswith str pre = (take (length pre) str = pre)"

definition endswith :: "string \<Rightarrow> string \<Rightarrow> bool" where
  "endswith str suf =
     (length suf \<le> length str \<and> drop (length str - length suf) str = suf)"

fun split_space :: "string \<Rightarrow> string list" where
  "split_space [] = [[]]"
| "split_space (ch # rest) =
     (if ch = CHR '' '' then [] # split_space rest
      else (case split_space rest of
              [] \<Rightarrow> [[ch]]
            | piece # pieces \<Rightarrow> (ch # piece) # pieces))"

text \<open>Python's \<open>" ".join(tokens)\<close>, used to form a text from a token sequence.\<close>

fun join_space :: "string list \<Rightarrow> string" where
  "join_space [] = []"
| "join_space [t] = t"
| "join_space (t # u # ts) = t @ CHR '' '' # join_space (u # ts)"

subsection \<open>\<open>get_compression_tokens\<close> (lines 126 to 208)\<close>

text \<open>
  The dictionary literal of lines 135 to 148, in the order of the source. The key
  \<open>mass\<close> is written twice there, both times with the same value.
\<close>

definition special_abbreviations :: "string \<rightharpoonup> string" where
  "special_abbreviations = map_of
     [(''co'', ''co.''),
      (''corp'', ''corp.''),
      (''ltd'', ''ltd.''),
      (''inc'', ''inc.''),
      (''va'', ''va.''),
      (''wis'', ''wis.''),
      (''pa'', ''pa.''),
      (''st'', ''st.''),
      (''mass'', ''mass.''),
      (''ont'', ''ont.''),
      (''mass'', ''mass.''),
      (''v'', ''v.''),
      (''calif'', ''calif.''),
      (''app'', ''app.'')]"

text \<open>
  The body of the for loop of line 154 is three steps on the current \<open>token\<close>:
  lines 156 and 157 (a trailing comma), lines 160 to 162 (the abbreviations), and the
  chain of \<open>if\<close> and \<open>elif\<close> of lines 164 to 206, which appends to
  \<open>compression_tokens\<close>. A string that contains an apostrophe next to a string
  delimiter is written as a list of characters; \<open>CHR 0x27\<close> is the apostrophe.
\<close>

definition strip_comma :: "string \<Rightarrow> string" where
  "strip_comma token = (if endswith token '','' then take (length token - 1) token else token)"

definition handle_abbreviation :: "string set \<Rightarrow> string \<Rightarrow> string" where
  "handle_abbreviation token_forms_set token =
     (case special_abbreviations token of
        Some punctuated \<Rightarrow> if punctuated \<in> token_forms_set then punctuated else token
      | None \<Rightarrow> token)"

definition append_tokens :: "string list \<Rightarrow> string \<Rightarrow> string list" where
  "append_tokens compression_tokens token =
     (if token = [CHR 0x27, CHR ''s''] then compression_tokens @ [token]
      else if endswith token [CHR 0x27, CHR ''s''] then
        (compression_tokens @ [take (length token - 2) token])
          @ [drop (length token - 2) token]
      else if endswith token ''n't'' then
        (compression_tokens @ [take (length token - 3) token])
          @ [drop (length token - 3) token]
      else if endswith token ''%'' then
        (compression_tokens @ [take (length token - 1) token])
          @ [drop (length token - 1) token]
      else if token = ''-'' then compression_tokens
      else if token = '':'' then compression_tokens
      else if token = '';'' then compression_tokens
      else if token = [] then compression_tokens
      else if token = ''/'' then compression_tokens
      else if token = ''!'' then compression_tokens
      else if token = ''different.'' then compression_tokens @ [''different'']
      else if token = ''prisoner.'' then compression_tokens @ [''prisoner'']
      else if token = ''bar.'' then compression_tokens @ [''bar'']
      else if token = ''declared.'' then compression_tokens @ [''declared'']
      else if startswith token ''``'' \<and> endswith token [CHR 0x27, CHR 0x27] then
        ((compression_tokens @ [''``''])
           @ [drop 2 (take (length token - 2) token)])
          @ [[CHR 0x27, CHR 0x27]]
      else if startswith token ''('' then compression_tokens @ [drop 1 token]
      else if endswith token '')'' then compression_tokens @ [take (length token - 1) token]
      else if endswith token ''?'' then compression_tokens @ [take (length token - 1) token]
      else compression_tokens @ [token])"

definition process_token :: "string set \<Rightarrow> string list \<Rightarrow> string \<Rightarrow> string list" where
  "process_token token_forms_set compression_tokens token =
     append_tokens compression_tokens
       (handle_abbreviation token_forms_set (strip_comma token))"

text \<open>
  A sentence token is the tuple \<open>(id, form, tag, stem)\<close> of lines 71 to 74;
  \<open>token[1]\<close> is its form.
\<close>

type_synonym sentence_token = "int \<times> string \<times> string \<times> string"

definition get_compression_tokens :: "sentence_token list \<Rightarrow> string \<Rightarrow> string list" where
  "get_compression_tokens sentence_tokens compression =
     (let token_forms = map (\<lambda>token. lower (fst (snd token))) sentence_tokens;
          token_forms_set = set token_forms;
          compression_lower = lower compression
      in foldl (process_token token_forms_set) []
           (split_space (take (length compression_lower - 1) compression_lower)))"

subsection \<open>\<open>compression_json_to_example\<close> (lines 58 to 94)\<close>

text \<open>
  The parsed record: \<open>json_object["graph"]["sentence"]\<close>, \<open>["graph"]["node"]\<close> (each
  node with its list \<open>"word"\<close> of word objects) and \<open>["compression"]["text"]\<close>. The
  fields the function reads are present by the type. Identifiers are integers; the test
  \<open>word["id"] is not -1\<close> of line 70 compares object identity, which for the integer
  \<open>-1\<close> is equality in CPython (small integers are shared objects).
\<close>

record word =
  word_id :: int
  word_form :: string
  word_tag :: string
  word_stem :: string

record node =
  node_word :: "word list"

record json_object =
  graph_sentence :: string
  graph_node :: "node list"
  compression_text :: string

text \<open>The named tuple \<open>Token\<close> of line 9.\<close>

record Token =
  form :: string
  tag :: string
  stem :: string
  label :: int

text \<open>Lines 67 to 75: the two nested for loops that append the tuples.\<close>

definition collect_sentence_tokens :: "json_object \<Rightarrow> sentence_token list" where
  "collect_sentence_tokens json_object =
     [(word_id word, word_form word, word_tag word, word_stem word).
        forms \<leftarrow> graph_node json_object, word \<leftarrow> node_word forms, word_id word \<noteq> - 1]"

text \<open>Line 78: \<open>sentence_tokens.sort(key=lambda x: x[0])\<close>, a stable sort.\<close>

definition sorted_sentence_tokens :: "json_object \<Rightarrow> sentence_token list" where
  "sorted_sentence_tokens json_object = sort_key fst (collect_sentence_tokens json_object)"

definition compression_json_to_example :: "json_object \<Rightarrow> error + Token list" where
  "compression_json_to_example json_object =
     (let sentence = graph_sentence json_object;
          compression = compression_text json_object;
          sentence_tokens = sorted_sentence_tokens json_object;
          compression_tokens = get_compression_tokens sentence_tokens compression;
          lowercase_tokens = map (\<lambda>x. lower (fst (snd x))) sentence_tokens
      in case get_labels lowercase_tokens compression_tokens of
           Inl e \<Rightarrow> Inl e
         | Inr labels \<Rightarrow>
             Inr (map (\<lambda>(label, (id, form, tag, stem)).
                         \<lparr>form = form, tag = tag, stem = stem, label = label\<rparr>)
                      (zip labels sentence_tokens)))"

subsection \<open>\<open>load_compression_data\<close> (lines 11 to 38)\<close>

text \<open>
  The generator \<open>get_compression_json(path)\<close> reads and parses the file; here it is the
  list of the records it would yield, and the loop returns, with the examples, the
  records it has not taken from the generator. \<open>limit\<close> is \<open>None\<close> or an integer;
  \<open>if limit\<close> holds for an integer other than 0. An exception of
  \<open>compression_json_to_example\<close> leaves the loop and the function.
\<close>

fun load_loop ::
  "int option \<Rightarrow> json_object list \<Rightarrow> Token list list \<Rightarrow>
   error + (Token list list \<times> json_object list)" where
  "load_loop limit [] examples = Inr (examples, [])"
| "load_loop limit (compression_json # rest) examples =
     (case compression_json_to_example compression_json of
        Inl e \<Rightarrow> Inl e
      | Inr example \<Rightarrow>
          (let examples' = examples @ [example]
           in if limit \<noteq> None \<and> limit \<noteq> Some 0
                 \<and> Some (int (length examples')) = limit
              then Inr (examples', rest)
              else load_loop limit rest examples'))"

definition load_compression_data ::
  "json_object list \<Rightarrow> int option \<Rightarrow> error + Token list list" where
  "load_compression_data records limit =
     (case load_loop limit records [] of
        Inl e \<Rightarrow> Inl e
      | Inr (examples, unread) \<Rightarrow> Inr examples)"

subsection \<open>Notions used to state the properties\<close>

text \<open>
  The characters the normalizer looks at: the space it splits on, the comma, the
  punctuation of its rules and the apostrophe. A character is plain when it is an ASCII
  character that lowercasing leaves alone and it is none of these; a token sequence has
  no special characters when every character of every token is plain.
\<close>

definition special_characters :: string where
  "special_characters = '' ,%-:;/!.`()?'' @ [CHR 0x27]"

definition plain_char :: "char \<Rightarrow> bool" where
  "plain_char ch =
     ((of_char ch :: nat) < 128 \<and> lower_char ch = ch \<and> ch \<notin> set special_characters)"

definition no_special_characters :: "string list \<Rightarrow> bool" where
  "no_special_characters ts = list_all (list_all plain_char) ts"

text \<open>
  Processing the records one after the other, the first exception ending the run: what
  a loop over \<open>compression_json_to_example\<close> computes when nothing stops it early.
\<close>

fun examples_of :: "json_object list \<Rightarrow> error + Token list list" where
  "examples_of [] = Inr []"
| "examples_of (compression_json # rest) =
     (case compression_json_to_example compression_json of
        Inl e \<Rightarrow> Inl e
      | Inr example \<Rightarrow>
          (case examples_of rest of
             Inl e \<Rightarrow> Inl e
           | Inr examples \<Rightarrow> Inr (example # examples)))"

text \<open>
  Three records for the concrete instances below: a sentence of three words whose token
  graph lists them out of order next to a node with the sentinel identifier; a graph
  with two words of the same identifier; and a record with no word at all and a
  compression of one token.
\<close>

definition example_record :: json_object where
  "example_record =
     \<lparr>graph_sentence = ''The co. filed'',
      graph_node =
        [\<lparr>node_word = [\<lparr>word_id = 2, word_form = ''filed'', word_tag = ''VBD'', word_stem = ''file''\<rparr>,
                       \<lparr>word_id = - 1, word_form = ''ROOT'', word_tag = ''ROOT'', word_stem = ''ROOT''\<rparr>]\<rparr>,
         \<lparr>node_word = [\<lparr>word_id = 1, word_form = ''co.'', word_tag = ''NN'', word_stem = ''co.''\<rparr>,
                       \<lparr>word_id = 0, word_form = ''The'', word_tag = ''DT'', word_stem = ''the''\<rparr>]\<rparr>],
      compression_text = ''The filed.''\<rparr>"

definition duplicate_id_record :: json_object where
  "duplicate_id_record =
     \<lparr>graph_sentence = ''a b'',
      graph_node =
        [\<lparr>node_word = [\<lparr>word_id = 0, word_form = ''a'', word_tag = ''X'', word_stem = ''a''\<rparr>]\<rparr>,
         \<lparr>node_word = [\<lparr>word_id = 0, word_form = ''b'', word_tag = ''X'', word_stem = ''b''\<rparr>]\<rparr>],
      compression_text = ''a.''\<rparr>"

definition overlong_record :: json_object where
  "overlong_record =
     \<lparr>graph_sentence = '''', graph_node = [], compression_text = ''a.''\<rparr>"

section \<open>Properties of the labeler\<close>

subsection \<open>The loop never fails\<close>

lemma get_labels_loop_total:
  "length labels = length s \<Longrightarrow>
   \<exists>ls. get_labels_loop s c (labels, si, ci) = Inr ls \<and> length ls = length s"
proof (induction s c "(labels, si, ci)" arbitrary: labels si ci rule: get_labels_loop.induct)
  case (1 s c labels si ci)
  show ?case
  proof (cases "si < length s \<and> ci < length c")
    case False
    then show ?thesis
      using "1.prems" by (simp add: get_labels_loop.simps)
  next
    case inrange: True
    show ?thesis
    proof (cases "s ! si = c ! ci")
      case True
      have "\<exists>ls. get_labels_loop s c (labels[si := KEEP], si + 1, ci + 1) = Inr ls
                \<and> length ls = length s"
        using "1.hyps"(1) [OF inrange refl refl True] inrange "1.prems" by simp
      then show ?thesis
        using inrange True "1.prems" by (subst get_labels_loop.simps) simp
    next
      case False
      have "\<exists>ls. get_labels_loop s c (labels, si + 1, ci) = Inr ls \<and> length ls = length s"
        using "1.hyps"(2) [OF inrange refl refl False] "1.prems" by simp
      then show ?thesis
        using inrange False by (subst get_labels_loop.simps) simp
    qed
  qed
qed

text \<open>
  Claim C2. \<open>get_labels\<close> raises if and only if there are more compression tokens than
  sentence tokens: the only error it can raise is the AssertionError of line 106, the
  index write of line 117 never fails, and whenever the compression token count is at
  most the sentence token count it returns a label list.
\<close>

theorem get_labels_fails_iff:
  "((\<exists>e. get_labels s c = Inl e) \<longleftrightarrow> length s < length c)
   \<and> (get_labels s c = Inl AssertionError \<longleftrightarrow> length s < length c)
   \<and> ((\<exists>ls. get_labels s c = Inr ls) \<longleftrightarrow> length c \<le> length s)"
proof (cases "length c \<le> length s")
  case True
  obtain ls where "get_labels_loop s c (replicate (length s) DELETE, 0, 0) = Inr ls"
    using get_labels_loop_total [of "replicate (length s) DELETE" s c 0 0] by auto
  then show ?thesis
    using True by (simp add: get_labels_def)
next
  case False
  then show ?thesis
    by (simp add: get_labels_def)
qed

theorem get_labels_fails_iff_witness:
  "get_labels [''a''] [''a'', ''b''] = Inl AssertionError
   \<and> (\<exists>ls. get_labels [''a'', ''b''] [''b''] = Inr ls)"
  using get_labels_fails_iff [of "[''a'']" "[''a'', ''b'']"]
        get_labels_fails_iff [of "[''a'', ''b'']" "[''b'']"]
  by simp

subsection \<open>The loop computes the greedy match\<close>

lemma spec_greedy_labels_Nil2: "spec_greedy_labels s [] = replicate (length s) DELETE"
  by (induction s) auto

lemma length_spec_greedy_labels: "length (spec_greedy_labels s c) = length s"
  by (induction s c rule: spec_greedy_labels.induct) auto

lemma set_spec_greedy_labels: "set (spec_greedy_labels s c) \<subseteq> {KEEP, DELETE}"
  by (induction s c rule: spec_greedy_labels.induct) auto

lemma get_labels_loop_greedy:
  "length labels = length s \<Longrightarrow> drop si labels = replicate (length s - si) DELETE \<Longrightarrow>
   get_labels_loop s c (labels, si, ci)
     = Inr (take si labels @ spec_greedy_labels (drop si s) (drop ci c))"
proof (induction s c "(labels, si, ci)" arbitrary: labels si ci rule: get_labels_loop.induct)
  case (1 s c labels si ci)
  show ?case
  proof (cases "si < length s \<and> ci < length c")
    case False
    then consider "length s \<le> si" | "si < length s" "length c \<le> ci" by linarith
    then show ?thesis
    proof cases
      case 1
      then show ?thesis using "1.prems" by (simp add: get_labels_loop.simps)
    next
      case 2
      have "take si labels @ replicate (length s - si) DELETE = labels"
        using "1.prems"(2) append_take_drop_id [of si labels] by simp
      then show ?thesis
        using 2 by (simp add: get_labels_loop.simps spec_greedy_labels_Nil2)
    qed
  next
    case inrange: True
    then have si: "si < length s" and ci: "ci < length c" by auto
    have ds: "drop si s = s ! si # drop (Suc si) s"
      using si by (simp add: Cons_nth_drop_Suc)
    have dc: "drop ci c = c ! ci # drop (Suc ci) c"
      using ci by (simp add: Cons_nth_drop_Suc)
    have tl_del: "drop (Suc si) labels = replicate (length s - Suc si) DELETE"
    proof -
      have "drop (Suc si) labels = drop 1 (drop si labels)" by simp
      also have "\<dots> = replicate (length s - Suc si) DELETE"
        unfolding "1.prems"(2) by simp
      finally show ?thesis .
    qed
    show ?thesis
    proof (cases "s ! si = c ! ci")
      case True
      have "get_labels_loop s c (labels[si := KEEP], si + 1, ci + 1)
            = Inr (take (si + 1) (labels[si := KEEP])
                   @ spec_greedy_labels (drop (si + 1) s) (drop (ci + 1) c))"
        using "1.hyps"(1) [OF inrange refl refl True] si "1.prems" tl_del by simp
      moreover have "take (si + 1) (labels[si := KEEP]) = take si labels @ [KEEP]"
        using si "1.prems"(1) by (simp add: take_Suc_conv_app_nth)
      ultimately show ?thesis
        using inrange True "1.prems"(1) ds dc
        by (subst get_labels_loop.simps) simp
    next
      case False
      have "get_labels_loop s c (labels, si + 1, ci)
            = Inr (take (si + 1) labels @ spec_greedy_labels (drop (si + 1) s) (drop ci c))"
        using "1.hyps"(2) [OF inrange refl refl False] "1.prems" tl_del by simp
      moreover have "labels ! si = DELETE"
      proof -
        have "labels ! si = drop si labels ! 0" using si "1.prems"(1) by simp
        then show ?thesis unfolding "1.prems"(2) using si by simp
      qed
      then have "take (si + 1) labels = take si labels @ [DELETE]"
        using si "1.prems"(1) by (simp add: take_Suc_conv_app_nth)
      ultimately show ?thesis
        using inrange False ds dc
        by (subst get_labels_loop.simps) simp
    qed
  qed
qed

lemma get_labels_greedy:
  "length c \<le> length s \<Longrightarrow> get_labels s c = Inr (spec_greedy_labels s c)"
  using get_labels_loop_greedy [of "replicate (length s) DELETE" s 0 c 0]
  by (simp add: get_labels_def)

lemma kept_forms_greedy:
  "kept_forms s (spec_greedy_labels s c)
     = take (count_list (spec_greedy_labels s c) KEEP) c"
  by (induction s c rule: spec_greedy_labels.induct) (auto simp: kept_forms_def)

lemma get_labels_loop_stuck:
  "ci < length c \<Longrightarrow> c ! ci \<notin> set (drop si s) \<Longrightarrow>
   get_labels_loop s c (labels, si, ci) = Inr labels"
proof (induction s c "(labels, si, ci)" arbitrary: labels si ci rule: get_labels_loop.induct)
  case (1 s c labels si ci)
  show ?case
  proof (cases "si < length s")
    case False
    then show ?thesis by (simp add: get_labels_loop.simps)
  next
    case True
    then have ds: "drop si s = s ! si # drop (Suc si) s"
      by (simp add: Cons_nth_drop_Suc)
    have ne: "s ! si \<noteq> c ! ci" and rest: "c ! ci \<notin> set (drop (si + 1) s)"
      using "1.prems"(2) unfolding ds by auto
    have inrange: "si < length s \<and> ci < length c"
      using True "1.prems"(1) by simp
    have "get_labels_loop s c (labels, si + 1, ci) = Inr labels"
      using "1.hyps"(2) [OF inrange refl refl ne "1.prems"(1) rest] .
    then show ?thesis
      using inrange ne by (subst get_labels_loop.simps) simp
  qed
qed

lemma count_list_update_KEEP:
  assumes "i < length labels" "labels ! i = DELETE"
  shows "count_list (labels[i := KEEP]) KEEP = count_list labels KEEP + 1"
proof -
  have a: "labels[i := KEEP] = take i labels @ KEEP # drop (Suc i) labels"
    using assms(1) by (rule upd_conv_take_nth_drop)
  have b: "labels = take i labels @ DELETE # drop (Suc i) labels"
    using id_take_nth_drop [OF assms(1)] assms(2) by simp
  have "count_list (take i labels @ KEEP # drop (Suc i) labels) KEEP
        = count_list (take i labels @ DELETE # drop (Suc i) labels) KEEP + 1"
    by simp
  then show ?thesis using a b by simp
qed

lemma get_labels_reach_inv:
  "get_labels_reach s c st \<Longrightarrow>
   length (fst st) = length s
   \<and> drop (fst (snd st)) (fst st) = replicate (length s - fst (snd st)) DELETE
   \<and> count_list (fst st) KEEP = snd (snd st)
   \<and> get_labels_loop s c st = get_labels_loop s c (replicate (length s) DELETE, 0, 0)"
proof (induction rule: get_labels_reach.induct)
  case reach_init
  show ?case by (simp add: count_list_0_iff)
next
  case (reach_match labels si ci)
  have del: "labels ! si = DELETE"
  proof -
    have "labels ! si = drop si labels ! 0" using reach_match.hyps(5) by simp
    also have "\<dots> = DELETE"
      using reach_match.IH reach_match.hyps(2) by simp
    finally show ?thesis .
  qed
  have "drop (Suc si) labels = drop 1 (drop si labels)" by simp
  also have "\<dots> = replicate (length s - Suc si) DELETE"
    using reach_match.IH by simp
  finally have tl_del: "drop (Suc si) labels = replicate (length s - Suc si) DELETE" .
  have step: "get_labels_loop s c (labels, si, ci)
              = get_labels_loop s c (labels[si := KEEP], si + 1, ci + 1)"
    using reach_match.hyps by (subst get_labels_loop.simps) simp
  show ?case
    using reach_match.IH reach_match.hyps(5) del tl_del step
    by (simp add: count_list_update_KEEP)
next
  case (reach_skip labels si ci)
  have "drop (Suc si) labels = drop 1 (drop si labels)" by simp
  also have "\<dots> = replicate (length s - Suc si) DELETE"
    using reach_skip.IH by simp
  finally have tl_del: "drop (Suc si) labels = replicate (length s - Suc si) DELETE" .
  have step: "get_labels_loop s c (labels, si, ci) = get_labels_loop s c (labels, si + 1, ci)"
    using reach_skip.hyps by (subst get_labels_loop.simps) simp
  show ?case
    using reach_skip.IH tl_del step by simp
qed

text \<open>
  Claim C3. Under the length precondition \<open>get_labels\<close> returns the labels of the single
  forward pass of the specification (\<open>spec_greedy_labels\<close>: all DELETE at first, KEEP and both
  cursors forward on equal tokens, the sentence cursor forward otherwise). The sentence
  tokens labelled KEEP, read in order, are a prefix of the compression tokens, as long as
  the number of KEEP labels. The result is a function of the two sequences alone: two
  runs on the same sequences return the same labels.
\<close>

theorem get_labels_greedy_match:
  assumes "length c \<le> length s"
  shows "get_labels s c = Inr (spec_greedy_labels s c)
         \<and> kept_forms s (spec_greedy_labels s c) = take (count_list (spec_greedy_labels s c) KEEP) c
         \<and> prefix (kept_forms s (spec_greedy_labels s c)) c
         \<and> (\<forall>ls ls'. get_labels s c = Inr ls \<and> get_labels s c = Inr ls' \<longrightarrow> ls = ls')"
proof -
  have "prefix (take (count_list (spec_greedy_labels s c) KEEP) c) c"
    by (rule take_is_prefix)
  then show ?thesis
    using get_labels_greedy [OF assms] kept_forms_greedy [of s c] by simp
qed

theorem get_labels_greedy_match_witness:
  "length [''b'', ''c'', ''d''] \<le> length [''a'', ''b'', ''a'', ''c'']
   \<and> get_labels [''a'', ''b'', ''a'', ''c''] [''b'', ''c'', ''d'']
     = Inr [DELETE, KEEP, DELETE, KEEP]
   \<and> kept_forms [''a'', ''b'', ''a'', ''c''] [DELETE, KEEP, DELETE, KEEP] = [''b'', ''c'']
   \<and> prefix [''b'', ''c''] [''b'', ''c'', ''d'']"
  using get_labels_greedy_match [of "[''b'', ''c'', ''d'']" "[''a'', ''b'', ''a'', ''c'']"]
  by (simp add: kept_forms_def)

text \<open>
  Claim C5. A compression token that cannot be matched is not an error. Let the loop of
  \<open>get_labels\<close> have reached the cursors \<open>si\<close> and \<open>ci\<close> with the labels \<open>labels\<close>, and
  let the compression token at \<open>ci\<close> be different from every sentence token at or after
  \<open>si\<close>. Then, under the length precondition, \<open>get_labels\<close> returns, and what it returns
  is \<open>labels\<close> as they are at that moment: the tokens labelled KEEP are the \<open>ci\<close>
  compression tokens before the unmatched one, no KEEP is written for it or after it,
  every sentence position from \<open>si\<close> on has the initial DELETE, and every label is KEEP
  or DELETE.
\<close>

theorem get_labels_unmatched_token:
  assumes "length c \<le> length s"
      and "get_labels_reach s c (labels, si, ci)"
      and "ci < length c"
      and "c ! ci \<notin> set (drop si s)"
  shows "get_labels s c = Inr labels
         \<and> kept_forms s labels = take ci c
         \<and> (\<forall>i. si \<le> i \<and> i < length s \<longrightarrow> labels ! i = DELETE)
         \<and> set labels \<subseteq> {KEEP, DELETE}"
proof -
  note inv = get_labels_reach_inv [OF assms(2), simplified]
  have "get_labels s c = get_labels_loop s c (labels, si, ci)"
    using assms(1) inv by (simp add: get_labels_def)
  then have res: "get_labels s c = Inr labels"
    using get_labels_loop_stuck [OF assms(3,4)] by simp
  then have g: "labels = spec_greedy_labels s c"
    using get_labels_greedy [OF assms(1)] by simp
  have kept: "kept_forms s labels = take ci c"
    using kept_forms_greedy [of s c] inv unfolding g by simp
  have del: "labels ! i = DELETE" if "si \<le> i" "i < length s" for i
  proof -
    have len: "length labels = length s"
      using inv by simp
    have "labels ! i = drop si labels ! (i - si)"
      using that len by simp
    also have "\<dots> = replicate (length s - si) DELETE ! (i - si)"
      using inv by simp
    also have "\<dots> = DELETE"
      using that by simp
    finally show ?thesis .
  qed
  show ?thesis
    using res kept del set_spec_greedy_labels [of s c] unfolding g by blast
qed

theorem get_labels_unmatched_token_witness:
  "length [''a'', ''x''] \<le> length [''a'', ''b'', ''c'']
   \<and> get_labels_reach [''a'', ''b'', ''c''] [''a'', ''x''] ([KEEP, DELETE, DELETE], 1, 1)
   \<and> 1 < length [''a'', ''x'']
   \<and> [''a'', ''x''] ! 1 \<notin> set (drop 1 [''a'', ''b'', ''c''])
   \<and> get_labels [''a'', ''b'', ''c''] [''a'', ''x''] = Inr [KEEP, DELETE, DELETE]
   \<and> kept_forms [''a'', ''b'', ''c''] [KEEP, DELETE, DELETE] = [''a'']"
proof -
  let ?s = "[''a'', ''b'', ''c'']" and ?c = "[''a'', ''x'']"
  have r0: "get_labels_reach ?s ?c ([DELETE, DELETE, DELETE], 0, 0)"
    using reach_init [of ?s ?c] by (simp add: numeral_3_eq_3)
  have r1: "get_labels_reach ?s ?c ([KEEP, DELETE, DELETE], 1, 1)"
    using reach_match [OF r0] by simp
  show ?thesis
    using get_labels_unmatched_token [OF _ r1] r1 by simp
qed

section \<open>Properties of the sentence token extraction\<close>

lemma sentinel_not_collected: "t \<in> set (collect_sentence_tokens j) \<Longrightarrow> fst t \<noteq> - 1"
  by (auto simp: collect_sentence_tokens_def)

text \<open>
  Claim C7. No token with the sentinel identifier \<open>-1\<close> is in the extracted sequence,
  whichever node of the token graph holds the word.
\<close>

theorem sentinel_filtered:
  "\<forall>t \<in> set (sorted_sentence_tokens j). fst t \<noteq> - 1"
  by (auto simp: sorted_sentence_tokens_def dest: sentinel_not_collected)

theorem sentinel_filtered_witness:
  "sorted_sentence_tokens example_record
     = [(0, ''The'', ''DT'', ''the''), (1, ''co.'', ''NN'', ''co.''),
        (2, ''filed'', ''VBD'', ''file'')]
   \<and> list_all (\<lambda>t. fst t \<noteq> - 1) (sorted_sentence_tokens example_record)"
proof -
  have "sorted_sentence_tokens example_record
     = [(0, ''The'', ''DT'', ''the''), (1, ''co.'', ''NN'', ''co.''),
        (2, ''filed'', ''VBD'', ''file'')]"
    by code_simp
  then show ?thesis
    using sentinel_filtered [of example_record] by (simp add: list_all_iff)
qed

text \<open>
  Claim C1, as stated, fails: the extraction removes no duplicates. Two words with the
  identifier 0 are both extracted, so the identifiers of the result are neither strictly
  ascending nor distinct.
\<close>

theorem sorted_tokens_strict_counterexample:
  "sorted_sentence_tokens duplicate_id_record = [(0, ''a'', ''X'', ''a''), (0, ''b'', ''X'', ''b'')]
   \<and> \<not> sorted_wrt (<) (map fst (sorted_sentence_tokens duplicate_id_record))
   \<and> \<not> distinct (map fst (sorted_sentence_tokens duplicate_id_record))"
  by code_simp

text \<open>
  Claim C1, amended. The extracted sequence is ascending by identifier, not necessarily
  strictly; it holds every word of the graph whose identifier is not the sentinel, as
  often as the graph does; words of equal identifier keep the order the graph gives
  them; and it is strictly ascending exactly when the identifiers of those words are
  pairwise distinct.
\<close>

theorem sorted_tokens_ascending:
  "sorted (map fst (sorted_sentence_tokens j))
   \<and> mset (sorted_sentence_tokens j) = mset (collect_sentence_tokens j)
   \<and> (\<forall>k. filter (\<lambda>t. fst t = k) (sorted_sentence_tokens j)
           = filter (\<lambda>t. fst t = k) (collect_sentence_tokens j))
   \<and> (sorted_wrt (<) (map fst (sorted_sentence_tokens j))
        \<longleftrightarrow> distinct (map fst (collect_sentence_tokens j)))"
proof -
  let ?xs = "collect_sentence_tokens j"
  have "mset (map fst (sort_key fst ?xs)) = mset (map fst ?xs)"
    by simp
  then have "distinct (map fst (sort_key fst ?xs)) = distinct (map fst ?xs)"
    by (metis mset_eq_imp_distinct_iff)
  then show ?thesis
    by (simp add: sorted_sentence_tokens_def sort_key_stable strict_sorted_iff)
qed

theorem sorted_tokens_ascending_witness:
  "map fst (sorted_sentence_tokens example_record) = [0, 1, 2]
   \<and> sorted_wrt (<) (map fst (sorted_sentence_tokens example_record))
   \<and> distinct (map fst (collect_sentence_tokens example_record))
   \<and> sorted (map fst (sorted_sentence_tokens duplicate_id_record))
   \<and> \<not> distinct (map fst (collect_sentence_tokens duplicate_id_record))"
proof -
  have a: "map fst (sorted_sentence_tokens example_record) = [0, 1, 2]"
    by code_simp
  have b: "distinct (map fst (collect_sentence_tokens example_record))"
    by code_simp
  have c: "\<not> distinct (map fst (collect_sentence_tokens duplicate_id_record))"
    by code_simp
  show ?thesis
    using sorted_tokens_ascending [of example_record]
          sorted_tokens_ascending [of duplicate_id_record] a b c
    by simp
qed

section \<open>Properties of the compression normalizer\<close>

subsection \<open>The loop, splitting and lowercasing\<close>

lemma append_tokens_acc: "append_tokens acc t = acc @ append_tokens [] t"
  by (simp add: append_tokens_def)

lemma process_token_acc: "process_token F acc t = acc @ process_token F [] t"
  unfolding process_token_def by (rule append_tokens_acc)

lemma foldl_process_token:
  "foldl (process_token F) acc ts = acc @ concat (map (process_token F []) ts)"
proof (induction ts arbitrary: acc)
  case Nil
  show ?case by simp
next
  case (Cons t ts)
  show ?case
    using Cons.IH [of "process_token F acc t"] process_token_acc [of F acc t] by simp
qed

lemma split_space_no_space: "CHR '' '' \<notin> set t \<Longrightarrow> split_space t = [t]"
  by (induction t) auto

lemma split_space_append:
  "CHR '' '' \<notin> set t \<Longrightarrow> split_space (t @ CHR '' '' # rest) = t # split_space rest"
  by (induction t) auto

lemma split_space_join_space:
  "ts \<noteq> [] \<Longrightarrow> \<forall>t \<in> set ts. CHR '' '' \<notin> set t \<Longrightarrow> split_space (join_space ts) = ts"
proof (induction ts rule: join_space.induct)
  case 1
  then show ?case by simp
next
  case (2 t)
  then show ?case by (simp add: split_space_no_space)
next
  case (3 t u ts)
  then show ?case by (simp add: split_space_append)
qed

lemma lower_char_space: "lower_char (CHR '' '') = CHR '' ''"
  by (simp add: lower_char_def)

lemma lower_append: "lower (a @ b) = lower a @ lower b"
  by (simp add: lower_def)

lemma lower_join_space: "\<forall>t \<in> set ts. lower t = t \<Longrightarrow> lower (join_space ts) = join_space ts"
  by (induction ts rule: join_space.induct) (auto simp: lower_def lower_char_space)

lemma endswith_subset: "endswith t suf \<Longrightarrow> set suf \<subseteq> set t"
proof -
  assume "endswith t suf"
  then have "drop (length t - length suf) t = suf" by (simp add: endswith_def)
  then show ?thesis by (metis set_drop_subset)
qed

lemma startswith_subset: "startswith t pre \<Longrightarrow> set pre \<subseteq> set t"
proof -
  assume "startswith t pre"
  then have "take (length pre) t = pre" by (simp add: startswith_def)
  then show ?thesis by (metis set_take_subset)
qed

lemma drop_length_minus_1: "t \<noteq> [] \<Longrightarrow> drop (length t - 1) t = [last t]"
proof -
  assume "t \<noteq> []"
  then obtain ys y where "t = ys @ [y]"
    by (cases t rule: rev_cases) auto
  then show ?thesis by simp
qed

lemma endswith_single: "endswith t [ch] \<longleftrightarrow> t \<noteq> [] \<and> last t = ch"
proof (cases "t = []")
  case True
  then show ?thesis by (simp add: endswith_def)
next
  case False
  then have "1 \<le> length t" by (cases t) auto
  then show ?thesis
    using False drop_length_minus_1 [OF False] by (simp add: endswith_def)
qed

lemma endswith_imp_last: "endswith t suf \<Longrightarrow> suf \<noteq> [] \<Longrightarrow> t \<noteq> [] \<and> last t = last suf"
proof -
  assume a: "endswith t suf" and b: "suf \<noteq> []"
  then have d: "drop (length t - length suf) t = suf" and l: "length suf \<le> length t"
    by (simp_all add: endswith_def)
  have ne: "t \<noteq> []" using l b by auto
  have "last t = last (drop (length t - length suf) t)"
    using l b ne by (simp add: last_drop)
  then show ?thesis using d ne by simp
qed

lemma abbreviation_entry:
  "special_abbreviations t = Some p \<Longrightarrow>
   (t, p) \<in> set [(''co'', ''co.''), (''corp'', ''corp.''), (''ltd'', ''ltd.''),
                (''inc'', ''inc.''), (''va'', ''va.''), (''wis'', ''wis.''), (''pa'', ''pa.''),
                (''st'', ''st.''), (''mass'', ''mass.''), (''ont'', ''ont.''),
                (''v'', ''v.''), (''calif'', ''calif.''), (''app'', ''app.'')]"
  unfolding special_abbreviations_def by (drule map_of_SomeD) auto

subsection \<open>Tokens without special characters\<close>

lemma plain_strip_comma: "list_all plain_char t \<Longrightarrow> strip_comma t = t"
  using endswith_subset [of t "'',''"]
  by (auto simp: strip_comma_def list_all_iff plain_char_def special_characters_def)

lemma plain_append_tokens:
  assumes "list_all plain_char t" "t \<noteq> []"
  shows "append_tokens [] t = [t]"
proof -
  have ns: "ch \<notin> set t" if "ch \<in> set special_characters" for ch
    using assms(1) that by (auto simp: list_all_iff plain_char_def)
  have e: "\<not> endswith t suf" if "ch \<in> set suf" "ch \<in> set special_characters" for suf ch
    using endswith_subset [of t suf] ns that by blast
  have s: "\<not> startswith t pre" if "ch \<in> set pre" "ch \<in> set special_characters" for pre ch
    using startswith_subset [of t pre] ns that by blast
  have q: "t \<noteq> u" if "ch \<in> set u" "ch \<in> set special_characters" for u ch
    using ns that by blast
  have g1: "t \<noteq> [CHR 0x27, CHR ''s'']"
    by (rule q [of "CHR 0x27"]) (simp_all add: special_characters_def)
  have g2: "\<not> endswith t [CHR 0x27, CHR ''s'']"
    by (rule e [of "CHR 0x27"]) (simp_all add: special_characters_def)
  have g3: "\<not> endswith t ''n't''"
    by (rule e [of "CHR 0x27"]) (simp_all add: special_characters_def)
  have g4: "\<not> endswith t ''%''"
    by (rule e [of "CHR ''%''"]) (simp_all add: special_characters_def)
  have g5: "t \<noteq> ''-''" "t \<noteq> '':''" "t \<noteq> '';''" "t \<noteq> ''/''" "t \<noteq> ''!''"
    by (rule q [of "CHR ''-''"], simp_all add: special_characters_def)
       (rule q [of "CHR '':''"], simp_all add: special_characters_def,
        rule q [of "CHR '';''"], simp_all add: special_characters_def,
        rule q [of "CHR ''/''"], simp_all add: special_characters_def,
        rule q [of "CHR ''!''"], simp_all add: special_characters_def)
  have g6: "t \<noteq> ''different.''" "t \<noteq> ''prisoner.''" "t \<noteq> ''bar.''" "t \<noteq> ''declared.''"
    by (rule q [of "CHR ''.''"], simp_all add: special_characters_def)+
  have g7: "\<not> startswith t ''``''"
    by (rule s [of "CHR ''`''"]) (simp_all add: special_characters_def)
  have g8: "\<not> startswith t ''(''"
    by (rule s [of "CHR ''(''"]) (simp_all add: special_characters_def)
  have g9: "\<not> endswith t '')''" "\<not> endswith t ''?''"
    by (rule e [of "CHR '')''"], simp_all add: special_characters_def)
       (rule e [of "CHR ''?''"], simp_all add: special_characters_def)
  show ?thesis
    unfolding append_tokens_def
    using assms(2) g1 g2 g3 g4 g5 g6 g7 g8 g9 by simp
qed

text \<open>
  Claim C6, as stated, fails in two ways. The token \<open>co\<close> has no special character, yet
  with \<open>co.\<close> among the lowercased sentence forms the normalizer rewrites it; and the
  empty token has no special character, yet the normalizer drops it.
\<close>

theorem normalizer_changes_plain_tokens_counterexample:
  "no_special_characters [''co'']
   \<and> get_compression_tokens [(0, ''Co.'', ''NNP'', ''co.'')] (join_space [''co''] @ ''.'')
       = [''co.'']
   \<and> get_compression_tokens [(0, ''Co.'', ''NNP'', ''co.'')] (join_space [''co''] @ ''.'')
       \<noteq> [''co'']
   \<and> no_special_characters [[]]
   \<and> get_compression_tokens [] (join_space [[]] @ ''.'') = []
   \<and> get_compression_tokens [] (join_space [[]] @ ''.'') \<noteq> [[]]"
  by code_simp

text \<open>
  Claim C6, amended. Take a sequence of non-empty tokens without special characters, none
  of which is a key of the abbreviation table whose punctuated form is among the
  lowercased sentence forms. The text formed from it (the tokens joined by single spaces,
  then any terminating character) is normalized to the same sequence.
\<close>

theorem normalizer_fixes_plain_tokens:
  assumes "no_special_characters ts"
      and "\<forall>t \<in> set ts. t \<noteq> []"
      and "\<forall>t \<in> set ts. \<forall>p. special_abbreviations t = Some p \<longrightarrow>
             p \<notin> set (map (\<lambda>token. lower (fst (snd token))) sentence_tokens)"
  shows "get_compression_tokens sentence_tokens (join_space ts @ [terminator]) = ts"
proof -
  let ?F = "set (map (\<lambda>token. lower (fst (snd token))) sentence_tokens)"
  have plain: "list_all plain_char t" if "t \<in> set ts" for t
    using assms(1) that by (simp add: no_special_characters_def list_all_iff)
  have low: "\<forall>t \<in> set ts. lower t = t"
    using plain by (auto simp: lower_def list_all_iff plain_char_def intro: map_idI)
  have nosp: "\<forall>t \<in> set ts. CHR '' '' \<notin> set t"
    using plain by (auto simp: list_all_iff plain_char_def special_characters_def)
  have stripped: "take (length (lower (join_space ts @ [terminator])) - 1)
                (lower (join_space ts @ [terminator])) = join_space ts"
    using lower_join_space [OF low] by (simp add: lower_append) (simp add: lower_def)
  have one: "process_token ?F [] t = [t]" if "t \<in> set ts" for t
  proof -
    have "handle_abbreviation ?F t = t"
      using assms(3) that by (auto simp: handle_abbreviation_def split: option.splits)
    then show ?thesis
      using plain [OF that] assms(2) that
      by (simp add: process_token_def plain_strip_comma plain_append_tokens)
  qed
  show ?thesis
  proof (cases "ts = []")
    case True
    have "process_token ?F [] [] = []"
      by (simp add: process_token_def strip_comma_def endswith_def handle_abbreviation_def
            special_abbreviations_def append_tokens_def)
    then show ?thesis
      using True stripped unfolding get_compression_tokens_def Let_def
      by (simp add: lower_def)
  next
    case False
    have "concat (map (process_token ?F []) ts) = concat (map (\<lambda>t. [t]) ts)"
      using one by (intro arg_cong [where f = concat] map_cong) auto
    also have "\<dots> = ts" by (induction ts) auto
    finally have c: "concat (map (process_token ?F []) ts) = ts" .
    show ?thesis
      unfolding get_compression_tokens_def Let_def stripped
      using split_space_join_space [OF False nosp] c
      by (simp add: foldl_process_token)
  qed
qed

theorem normalizer_fixes_plain_tokens_witness:
  "no_special_characters [''the'', ''corp'', ''filed'']
   \<and> special_abbreviations ''corp'' = Some ''corp.''
   \<and> ''corp.'' \<notin> set (map (\<lambda>token. lower (fst (snd token))) [(0::int, ''Co.'', ''NNP'', ''co.'')])
   \<and> get_compression_tokens [(0, ''Co.'', ''NNP'', ''co.'')]
        (join_space [''the'', ''corp'', ''filed''] @ ''.'')
       = [''the'', ''corp'', ''filed'']"
proof -
  have a: "no_special_characters [''the'', ''corp'', ''filed'']"
    by code_simp
  have b: "\<forall>t \<in> set [''the'', ''corp'', ''filed'']. t \<noteq> []"
    by simp
  have k: "special_abbreviations ''corp'' = Some ''corp.''"
    by (simp add: special_abbreviations_def)
  have n: "''corp.'' \<notin> set (map (\<lambda>token. lower (fst (snd token)))
             [(0::int, ''Co.'', ''NNP'', ''co.'')])"
    by code_simp
  have c: "\<forall>t \<in> set [''the'', ''corp'', ''filed'']. \<forall>p. special_abbreviations t = Some p \<longrightarrow>
             p \<notin> set (map (\<lambda>token. lower (fst (snd token)))
                     [(0::int, ''Co.'', ''NNP'', ''co.'')])"
    using n by (simp add: special_abbreviations_def)
  show ?thesis
    using normalizer_fixes_plain_tokens [OF a b c, of "CHR ''.''"] a k n by simp
qed

subsection \<open>Abbreviations\<close>

lemma table_facts:
  "list_all (\<lambda>(k, p). p \<noteq> k \<and> lower k = k \<and> split_space k = [k] \<and> strip_comma k = k
       \<and> append_tokens [] k = [k] \<and> append_tokens [] p = [p])
     [(''co'', ''co.''), (''corp'', ''corp.''), (''ltd'', ''ltd.''),
                (''inc'', ''inc.''), (''va'', ''va.''), (''wis'', ''wis.''), (''pa'', ''pa.''),
                (''st'', ''st.''), (''mass'', ''mass.''), (''ont'', ''ont.''),
                (''v'', ''v.''), (''calif'', ''calif.''), (''app'', ''app.'')]"
  by code_simp

lemma abbreviation_key_facts:
  assumes "special_abbreviations t = Some p"
  shows "p \<noteq> t" and "lower t = t" and "split_space t = [t]" and "strip_comma t = t"
    and "append_tokens [] t = [t]" and "append_tokens [] p = [p]"
  using abbreviation_entry [OF assms] table_facts
  unfolding list_all_iff by fastforce+

text \<open>
  Claim C8. A token that is a key of the abbreviation table is rewritten to its
  punctuated form if and only if that form is among the lowercased sentence forms, and
  is left as it is otherwise; a compression text that consists of such a key yields the
  one token so chosen. For the sentence tokens \<open>(0, The)\<close>, \<open>(1, co.)\<close>, \<open>(2, filed)\<close>
  with any tags and stems and the compression text \<open>The co. filed.\<close> the normalizer
  yields \<open>the\<close>, \<open>co.\<close>, \<open>filed\<close>, and the labels are KEEP, KEEP, KEEP.
\<close>

theorem abbreviation_conditional:
  "(special_abbreviations token = Some punctuated \<longrightarrow>
      (handle_abbreviation token_forms_set token = punctuated
         \<longleftrightarrow> punctuated \<in> token_forms_set)
      \<and> (punctuated \<notin> token_forms_set \<longrightarrow>
            handle_abbreviation token_forms_set token = token)
      \<and> get_compression_tokens sentence_tokens (token @ [terminator])
          = [if punctuated \<in> set (map (\<lambda>x. lower (fst (snd x))) sentence_tokens)
             then punctuated else token])
   \<and> get_compression_tokens
        [(0, ''The'', tag0, stem0), (1, ''co.'', tag1, stem1), (2, ''filed'', tag2, stem2)]
        ''The co. filed.''
       = [''the'', ''co.'', ''filed'']
   \<and> get_labels
        (map (\<lambda>x. lower (fst (snd x)))
           [(0::int, ''The'', tag0::string, stem0::string), (1, ''co.'', tag1, stem1),
            (2, ''filed'', tag2, stem2)])
        [''the'', ''co.'', ''filed'']
       = Inr [KEEP, KEEP, KEEP]"
proof -
  have general:
    "(handle_abbreviation token_forms_set token = punctuated
         \<longleftrightarrow> punctuated \<in> token_forms_set)
      \<and> (punctuated \<notin> token_forms_set \<longrightarrow>
            handle_abbreviation token_forms_set token = token)
      \<and> get_compression_tokens sentence_tokens (token @ [terminator])
          = [if punctuated \<in> set (map (\<lambda>x. lower (fst (snd x))) sentence_tokens)
             then punctuated else token]"
    if k: "special_abbreviations token = Some punctuated"
  proof -
    note f = abbreviation_key_facts [OF k]
    have h: "handle_abbreviation F token = (if punctuated \<in> F then punctuated else token)" for F
      using k by (simp add: handle_abbreviation_def)
    have stripped: "take (length (lower (token @ [terminator])) - 1) (lower (token @ [terminator]))
                    = token"
      using f(2) by (simp add: lower_append) (simp add: lower_def)
    have "foldl (process_token F) [] (split_space token)
            = [if punctuated \<in> F then punctuated else token]" for F
      using f h [of F] by (simp add: process_token_def)
    then show ?thesis
      unfolding get_compression_tokens_def Let_def stripped
      using f(1) h [of token_forms_set] by simp
  qed
  have tokens: "get_compression_tokens
        [(0, ''The'', tag0, stem0), (1, ''co.'', tag1, stem1), (2, ''filed'', tag2, stem2)]
        ''The co. filed.'' = [''the'', ''co.'', ''filed'']"
    by code_simp
  have labels: "get_labels
        (map (\<lambda>x. lower (fst (snd x)))
           [(0::int, ''The'', tag0::string, stem0::string), (1, ''co.'', tag1, stem1),
            (2, ''filed'', tag2, stem2)])
        [''the'', ''co.'', ''filed''] = Inr [KEEP, KEEP, KEEP]"
    by code_simp
  show ?thesis
    using general tokens labels by blast
qed

theorem abbreviation_conditional_witness:
  "special_abbreviations ''corp'' = Some ''corp.''
   \<and> get_compression_tokens [(0, ''Acme'', ''NNP'', ''acme''), (1, ''Corp.'', ''NNP'', ''corp.'')]
        ''corp.'' = [''corp.'']
   \<and> get_compression_tokens [(0, ''Acme'', ''NNP'', ''acme''), (1, ''Corp'', ''NNP'', ''corp'')]
        ''corp.'' = [''corp'']"
proof -
  have k: "special_abbreviations ''corp'' = Some ''corp.''"
    by (simp add: special_abbreviations_def)
  have a: "''corp.'' \<in> set (map (\<lambda>x. lower (fst (snd x)))
             [(0::int, ''Acme'', ''NNP'', ''acme''), (1, ''Corp.'', ''NNP'', ''corp.'')])"
    by code_simp
  have b: "''corp.'' \<notin> set (map (\<lambda>x. lower (fst (snd x)))
             [(0::int, ''Acme'', ''NNP'', ''acme''), (1, ''Corp'', ''NNP'', ''corp'')])"
    by code_simp
  show ?thesis
    using k a b
      abbreviation_conditional [of "''corp''" "''corp.''" "{}"
        "[(0, ''Acme'', ''NNP'', ''acme''), (1, ''Corp.'', ''NNP'', ''corp.'')]" "CHR ''.''"]
      abbreviation_conditional [of "''corp''" "''corp.''" "{}"
        "[(0, ''Acme'', ''NNP'', ''acme''), (1, ''Corp'', ''NNP'', ''corp'')]" "CHR ''.''"]
    by simp
qed

subsection \<open>Parentheses\<close>

lemma startswith_paren: "startswith t ''('' \<longleftrightarrow> (\<exists>rest. t = CHR ''('' # rest)"
  by (cases t) (auto simp: startswith_def)

lemma no_abbreviation_paren_start:
  "handle_abbreviation F (CHR ''('' # rest) = CHR ''('' # rest"
proof (cases "special_abbreviations (CHR ''('' # rest)")
  case None
  then show ?thesis by (simp add: handle_abbreviation_def)
next
  case (Some p)
  then show ?thesis using abbreviation_entry [OF Some] by auto
qed

lemma no_abbreviation_paren_end:
  assumes "endswith t '')''"
  shows "handle_abbreviation F t = t"
proof (cases "special_abbreviations t")
  case None
  then show ?thesis by (simp add: handle_abbreviation_def)
next
  case (Some p)
  have "last t = CHR '')''" using assms by (simp add: endswith_single)
  then show ?thesis using abbreviation_entry [OF Some] by auto
qed

lemma append_tokens_paren_start:
  assumes "\<not> endswith (CHR ''('' # rest) [CHR 0x27, CHR ''s'']"
      and "\<not> endswith (CHR ''('' # rest) ''n't''"
      and "\<not> endswith (CHR ''('' # rest) ''%''"
  shows "append_tokens acc (CHR ''('' # rest) = acc @ [rest]"
  using assms by (simp add: append_tokens_def startswith_def)

lemma append_tokens_paren_end:
  assumes "\<not> startswith t ''(''" and "endswith t '')''"
  shows "append_tokens acc t = acc @ [take (length t - 1) t]"
proof -
  have l: "t \<noteq> []" "last t = CHR '')''"
    using assms(2) by (simp_all add: endswith_single)
  have e: "\<not> endswith t suf" if "suf \<noteq> []" "last suf \<noteq> CHR '')''" for suf
    using endswith_imp_last [of t suf] l that by auto
  have q: "t \<noteq> u" if "last u \<noteq> CHR '')''" for u
    using l that by auto
  have g1: "t \<noteq> [CHR 0x27, CHR ''s'']" "t \<noteq> ''-''" "t \<noteq> '':''" "t \<noteq> '';''" "t \<noteq> ''/''"
       "t \<noteq> ''!''" "t \<noteq> ''different.''" "t \<noteq> ''prisoner.''" "t \<noteq> ''bar.''"
       "t \<noteq> ''declared.''"
    by (rule q, simp)+
  have g2: "\<not> endswith t [CHR 0x27, CHR ''s'']" "\<not> endswith t ''n't''" "\<not> endswith t ''%''"
       "\<not> endswith t [CHR 0x27, CHR 0x27]"
    by (rule e, simp, simp)+
  show ?thesis
    unfolding append_tokens_def using g1 g2 l(1) assms by simp
qed

text \<open>
  Claim C9, as stated, fails: a token that starts with an opening parenthesis and ends
  with \<open>'s\<close> is split by the earlier rule and keeps its parenthesis.
\<close>

theorem parenthesis_counterexample:
  "startswith ''(it's'' ''(''
   \<and> get_compression_tokens [] ''(it's.'' = [''(it'', [CHR 0x27, CHR ''s'']]
   \<and> get_compression_tokens [] ''(it's.'' \<noteq> [drop 1 ''(it's'']"
  by code_simp

text \<open>
  Claim C9, amended. Let \<open>t\<close> be the raw token after the removal of a trailing comma.
  If \<open>t\<close> starts with an opening parenthesis and does not end with \<open>'s\<close>, \<open>n't\<close> or
  \<open>%\<close> (the rules that come first), the normalizer appends \<open>t\<close> without its first
  character, and a closing parenthesis at the end of \<open>t\<close> stays. If \<open>t\<close> does not
  start with an opening parenthesis and ends with a closing one, the normalizer appends
  \<open>t\<close> without its last character. In both cases exactly one token is appended: one
  rule applies.
\<close>

theorem parenthesis_rules:
  "(startswith (strip_comma token) ''(''
      \<and> \<not> endswith (strip_comma token) [CHR 0x27, CHR ''s'']
      \<and> \<not> endswith (strip_comma token) ''n't''
      \<and> \<not> endswith (strip_comma token) ''%'' \<longrightarrow>
        process_token token_forms_set compression_tokens token
          = compression_tokens @ [drop 1 (strip_comma token)]
        \<and> (endswith (strip_comma token) '')'' \<longrightarrow>
             endswith (drop 1 (strip_comma token)) '')''))
   \<and> (\<not> startswith (strip_comma token) ''('' \<and> endswith (strip_comma token) '')'' \<longrightarrow>
        process_token token_forms_set compression_tokens token
          = compression_tokens
              @ [take (length (strip_comma token) - 1) (strip_comma token)])"
proof (intro conjI impI)
  assume a: "startswith (strip_comma token) ''(''
      \<and> \<not> endswith (strip_comma token) [CHR 0x27, CHR ''s'']
      \<and> \<not> endswith (strip_comma token) ''n't''
      \<and> \<not> endswith (strip_comma token) ''%''"
  then obtain rest where t: "strip_comma token = CHR ''('' # rest"
    by (auto simp: startswith_paren)
  show "process_token token_forms_set compression_tokens token
          = compression_tokens @ [drop 1 (strip_comma token)]"
    using a unfolding process_token_def t
    by (simp add: no_abbreviation_paren_start append_tokens_paren_start)
  assume "endswith (strip_comma token) '')''"
  then have "rest \<noteq> [] \<and> last rest = CHR '')''"
    unfolding t by (auto simp: endswith_single split: if_splits)
  then show "endswith (drop 1 (strip_comma token)) '')''"
    unfolding t by (simp add: endswith_single)
next
  assume b: "\<not> startswith (strip_comma token) ''('' \<and> endswith (strip_comma token) '')''"
  then show "process_token token_forms_set compression_tokens token
          = compression_tokens
              @ [take (length (strip_comma token) - 1) (strip_comma token)]"
    unfolding process_token_def
    by (simp add: no_abbreviation_paren_end append_tokens_paren_end)
qed

theorem parenthesis_rules_witness:
  "process_token {} [''x''] ''(abc)'' = [''x'', ''abc)'']
   \<and> endswith ''abc)'' '')''
   \<and> process_token {} [''x''] ''abc)'' = [''x'', ''abc'']
   \<and> process_token {} [''x''] ''(abc,'' = [''x'', ''abc'']"
proof -
  have a: "strip_comma ''(abc)'' = ''(abc)''" "strip_comma ''abc)'' = ''abc)''"
      "strip_comma ''(abc,'' = ''(abc''"
    by code_simp+
  have b: "startswith ''(abc)'' ''(''" "\<not> endswith ''(abc)'' [CHR 0x27, CHR ''s'']"
      "\<not> endswith ''(abc)'' ''n't''" "\<not> endswith ''(abc)'' ''%''" "endswith ''(abc)'' '')''"
      "\<not> startswith ''abc)''  ''(''" "endswith ''abc)'' '')''"
      "startswith ''(abc'' ''(''" "\<not> endswith ''(abc'' [CHR 0x27, CHR ''s'']"
      "\<not> endswith ''(abc'' ''n't''" "\<not> endswith ''(abc'' ''%''"
    by code_simp+
  show ?thesis
    using parenthesis_rules [of "''(abc)''" "{}" "[''x'']"]
          parenthesis_rules [of "''abc)''" "{}" "[''x'']"]
          parenthesis_rules [of "''(abc,''" "{}" "[''x'']"]
    unfolding a using b by simp
qed

section \<open>Properties of the labelled example and of the loader\<close>

lemma zip_labels_tokens:
  "length labels = length toks \<Longrightarrow>
   map (\<lambda>t. (form t, tag t, stem t))
     (map (\<lambda>(label, (id, form, tag, stem)).
             \<lparr>form = form, tag = tag, stem = stem, label = label\<rparr>) (zip labels toks))
     = map snd toks
   \<and> map label
     (map (\<lambda>(label, (id, form, tag, stem)).
             \<lparr>form = form, tag = tag, stem = stem, label = label\<rparr>) (zip labels toks))
     = labels"
  by (induction labels toks rule: list_induct2) auto

text \<open>
  Claim C4. Under the length precondition \<open>get_labels\<close> returns as many labels as there
  are sentence tokens, each of them KEEP (0) or DELETE (1). For a record whose
  compression tokens are not more than its sentence tokens,
  \<open>compression_json_to_example\<close> returns one token per sentence token, with the form,
  tag and stem of that sentence token and the label of its position.
\<close>

theorem labels_count_and_binary:
  "(length c \<le> length s \<longrightarrow>
      (\<exists>labels. get_labels s c = Inr labels \<and> length labels = length s
         \<and> set labels \<subseteq> {KEEP, DELETE}))
   \<and> (length (get_compression_tokens (sorted_sentence_tokens j) (compression_text j))
         \<le> length (sorted_sentence_tokens j) \<longrightarrow>
      (\<exists>example labels.
         compression_json_to_example j = Inr example
         \<and> get_labels (map (\<lambda>x. lower (fst (snd x))) (sorted_sentence_tokens j))
              (get_compression_tokens (sorted_sentence_tokens j) (compression_text j))
             = Inr labels
         \<and> length example = length (sorted_sentence_tokens j)
         \<and> map (\<lambda>t. (form t, tag t, stem t)) example = map snd (sorted_sentence_tokens j)
         \<and> map label example = labels
         \<and> set labels \<subseteq> {KEEP, DELETE}))"
proof (intro conjI impI)
  assume "length c \<le> length s"
  then show "\<exists>labels. get_labels s c = Inr labels \<and> length labels = length s
         \<and> set labels \<subseteq> {KEEP, DELETE}"
    using get_labels_greedy length_spec_greedy_labels set_spec_greedy_labels by blast
next
  let ?toks = "sorted_sentence_tokens j"
  let ?c = "get_compression_tokens ?toks (compression_text j)"
  let ?s = "map (\<lambda>x. lower (fst (snd x))) ?toks"
  let ?labels = "spec_greedy_labels ?s ?c"
  let ?example = "map (\<lambda>(label, (id, form, tag, stem)).
                   \<lparr>form = form, tag = tag, stem = stem, label = label\<rparr>) (zip ?labels ?toks)"
  assume "length ?c \<le> length ?toks"
  then have g: "get_labels ?s ?c = Inr ?labels"
    using get_labels_greedy [of ?c ?s] by simp
  have len: "length ?labels = length ?toks"
    by (simp add: length_spec_greedy_labels)
  have ex: "compression_json_to_example j = Inr ?example"
    using g by (simp add: compression_json_to_example_def Let_def)
  have "length ?example = length ?toks"
    using len by simp
  then show "\<exists>example labels.
         compression_json_to_example j = Inr example
         \<and> get_labels ?s ?c = Inr labels
         \<and> length example = length ?toks
         \<and> map (\<lambda>t. (form t, tag t, stem t)) example = map snd ?toks
         \<and> map label example = labels
         \<and> set labels \<subseteq> {KEEP, DELETE}"
    using ex g zip_labels_tokens [OF len] set_spec_greedy_labels [of ?s ?c] by blast
qed

theorem labels_count_and_binary_witness:
  "length [''the'', ''filed''] \<le> length [''the'', ''co.'', ''filed'']
   \<and> get_labels [''the'', ''co.'', ''filed''] [''the'', ''filed''] = Inr [KEEP, DELETE, KEEP]
   \<and> length (get_compression_tokens (sorted_sentence_tokens example_record)
         (compression_text example_record))
       \<le> length (sorted_sentence_tokens example_record)
   \<and> compression_json_to_example example_record
       = Inr [\<lparr>form = ''The'', tag = ''DT'', stem = ''the'', label = KEEP\<rparr>,
              \<lparr>form = ''co.'', tag = ''NN'', stem = ''co.'', label = DELETE\<rparr>,
              \<lparr>form = ''filed'', tag = ''VBD'', stem = ''file'', label = KEEP\<rparr>]"
proof -
  have pre: "length (get_compression_tokens (sorted_sentence_tokens example_record)
               (compression_text example_record))
             \<le> length (sorted_sentence_tokens example_record)"
    by code_simp
  have labels: "get_labels [''the'', ''co.'', ''filed''] [''the'', ''filed'']
                = Inr [KEEP, DELETE, KEEP]"
    by code_simp
  have example: "compression_json_to_example example_record
       = Inr [\<lparr>form = ''The'', tag = ''DT'', stem = ''the'', label = KEEP\<rparr>,
              \<lparr>form = ''co.'', tag = ''NN'', stem = ''co.'', label = DELETE\<rparr>,
              \<lparr>form = ''filed'', tag = ''VBD'', stem = ''file'', label = KEEP\<rparr>]"
    by code_simp
  show ?thesis
    using labels_count_and_binary [of "[''the'', ''filed'']" "[''the'', ''co.'', ''filed'']"
            example_record] pre labels example
    by simp
qed

lemma examples_of_success:
  "\<forall>j \<in> set rs. \<exists>example. compression_json_to_example j = Inr example \<Longrightarrow>
   \<exists>examples. examples_of rs = Inr examples \<and> length examples = length rs
      \<and> map compression_json_to_example rs = map Inr examples"
proof (induction rs)
  case Nil
  show ?case by simp
next
  case (Cons j rs)
  then obtain ex exs where "compression_json_to_example j = Inr ex"
      "examples_of rs = Inr exs" "length exs = length rs"
      "map compression_json_to_example rs = map Inr exs"
    by auto
  then show ?case by simp
qed

lemma examples_of_failure:
  "\<exists>j \<in> set rs. \<exists>e. compression_json_to_example j = Inl e \<Longrightarrow> \<exists>e. examples_of rs = Inl e"
proof (induction rs)
  case Nil
  then show ?case by simp
next
  case (Cons j rs)
  then show ?case
    by (cases "compression_json_to_example j"; cases "examples_of rs") auto
qed

lemma load_loop_no_limit:
  "limit = None \<or> limit = Some 0 \<Longrightarrow>
   load_loop limit rs acc =
     (case examples_of rs of Inl e \<Rightarrow> Inl e | Inr examples \<Rightarrow> Inr (acc @ examples, []))"
proof (induction rs arbitrary: acc)
  case Nil
  show ?case by simp
next
  case (Cons j rs)
  show ?case
  proof (cases "compression_json_to_example j")
    case (Inl e)
    then show ?thesis by simp
  next
    case (Inr ex)
    have "load_loop limit (j # rs) acc = load_loop limit rs (acc @ [ex])"
      using Inr Cons.prems by auto
    then show ?thesis
      using Cons.IH [OF Cons.prems, of "acc @ [ex]"] Inr
      by (simp split: sum.splits)
  qed
qed

lemma load_loop_limit:
  "0 < n \<Longrightarrow> length acc < nat n \<Longrightarrow>
   load_loop (Some n) rs acc =
     (case examples_of (take (nat n - length acc) rs) of
        Inl e \<Rightarrow> Inl e
      | Inr examples \<Rightarrow> Inr (acc @ examples, drop (nat n - length acc) rs))"
proof (induction rs arbitrary: acc)
  case Nil
  show ?case by simp
next
  case (Cons j rs)
  obtain m where m: "nat n - length acc = Suc m"
    using Cons.prems(2) by (cases "nat n - length acc") auto
  show ?case
  proof (cases "compression_json_to_example j")
    case (Inl e)
    then show ?thesis by (simp add: m)
  next
    case (Inr ex)
    show ?thesis
    proof (cases "int (length acc) + 1 = n")
      case True
      then have "m = 0" using m by linarith
      then show ?thesis
        using Inr True Cons.prems(1) by (simp add: m)
    next
      case False
      then have lt: "length (acc @ [ex]) < nat n"
        using Cons.prems by auto
      have m': "nat n - length (acc @ [ex]) = m"
        using m by simp
      have step: "load_loop (Some n) (j # rs) acc = load_loop (Some n) rs (acc @ [ex])"
        using Inr False by simp
      have ih: "load_loop (Some n) rs (acc @ [ex]) =
                  (case examples_of (take m rs) of
                     Inl e \<Rightarrow> Inl e
                   | Inr examples \<Rightarrow> Inr ((acc @ [ex]) @ examples, drop m rs))"
        using Cons.IH [OF Cons.prems(1) lt] unfolding m' .
      show ?thesis
        unfolding step ih m using Inr by (simp split: sum.splits)
    qed
  qed
qed

text \<open>
  Claim C10, as stated, fails: a record with more compression tokens than sentence tokens
  raises the AssertionError of \<open>get_labels\<close>, and \<open>load_compression_data\<close> then returns
  no example at all, whatever the limit.
\<close>

theorem load_limit_counterexample:
  "load_compression_data [overlong_record] None = Inl AssertionError
   \<and> load_compression_data [overlong_record] (Some 0) = Inl AssertionError
   \<and> load_compression_data [overlong_record] (Some 1) = Inl AssertionError"
  by code_simp

text \<open>
  Claim C10, amended. With the limit \<open>None\<close> or 0 and every record converted without an
  exception, \<open>load_compression_data\<close> returns one example per record, in order, and
  reads every record. With a positive limit \<open>n\<close> and each of the first \<open>n\<close> records
  converted without an exception, it returns the examples of the first \<open>n\<close> records
  (all of them when there are fewer), and the records after the \<open>n\<close>th are left unread,
  whatever they are. When one of the records it reads raises, the exception leaves the
  function.
\<close>

theorem load_limit_semantics:
  "((limit = None \<or> limit = Some 0)
      \<and> (\<forall>j \<in> set records. \<exists>example. compression_json_to_example j = Inr example) \<longrightarrow>
        (\<exists>examples.
           load_loop limit records [] = Inr (examples, [])
           \<and> load_compression_data records limit = Inr examples
           \<and> length examples = length records
           \<and> map compression_json_to_example records = map Inr examples))
   \<and> (limit = Some n \<and> 0 < n
      \<and> (\<forall>j \<in> set (take (nat n) records).
            \<exists>example. compression_json_to_example j = Inr example) \<longrightarrow>
        (\<exists>examples.
           load_loop limit records [] = Inr (examples, drop (nat n) records)
           \<and> load_compression_data records limit = Inr examples
           \<and> length examples = min (nat n) (length records)
           \<and> map compression_json_to_example (take (nat n) records) = map Inr examples))
   \<and> ((limit = None \<or> limit = Some 0)
      \<and> (\<exists>j \<in> set records. \<exists>e. compression_json_to_example j = Inl e) \<longrightarrow>
        (\<exists>e. load_compression_data records limit = Inl e))
   \<and> (limit = Some n \<and> 0 < n
      \<and> (\<exists>j \<in> set (take (nat n) records). \<exists>e. compression_json_to_example j = Inl e) \<longrightarrow>
        (\<exists>e. load_compression_data records limit = Inl e))"
proof (intro conjI impI)
  assume a: "(limit = None \<or> limit = Some 0)
      \<and> (\<forall>j \<in> set records. \<exists>example. compression_json_to_example j = Inr example)"
  then obtain examples where e: "examples_of records = Inr examples"
      "length examples = length records"
      "map compression_json_to_example records = map Inr examples"
    using examples_of_success [of records] by blast
  have "load_loop limit records [] = Inr (examples, [])"
    using a e(1) load_loop_no_limit [of limit records "[]"] by simp
  then show "\<exists>examples.
           load_loop limit records [] = Inr (examples, [])
           \<and> load_compression_data records limit = Inr examples
           \<and> length examples = length records
           \<and> map compression_json_to_example records = map Inr examples"
    using e by (simp add: load_compression_data_def)
next
  assume a: "limit = Some n \<and> 0 < n
      \<and> (\<forall>j \<in> set (take (nat n) records).
            \<exists>example. compression_json_to_example j = Inr example)"
  then obtain examples where e: "examples_of (take (nat n) records) = Inr examples"
      "length examples = length (take (nat n) records)"
      "map compression_json_to_example (take (nat n) records) = map Inr examples"
    using examples_of_success [of "take (nat n) records"] by blast
  have "load_loop limit records [] = Inr (examples, drop (nat n) records)"
    using a e(1) load_loop_limit [of n "[]" records] by simp
  then show "\<exists>examples.
           load_loop limit records [] = Inr (examples, drop (nat n) records)
           \<and> load_compression_data records limit = Inr examples
           \<and> length examples = min (nat n) (length records)
           \<and> map compression_json_to_example (take (nat n) records) = map Inr examples"
    using e by (simp add: load_compression_data_def min.commute)
next
  assume a: "(limit = None \<or> limit = Some 0)
      \<and> (\<exists>j \<in> set records. \<exists>e. compression_json_to_example j = Inl e)"
  then obtain e where "examples_of records = Inl e"
    using examples_of_failure [of records] by blast
  then show "\<exists>e. load_compression_data records limit = Inl e"
    using a load_loop_no_limit [of limit records "[]"] by (simp add: load_compression_data_def)
next
  assume a: "limit = Some n \<and> 0 < n
      \<and> (\<exists>j \<in> set (take (nat n) records). \<exists>e. compression_json_to_example j = Inl e)"
  then obtain e where "examples_of (take (nat n) records) = Inl e"
    using examples_of_failure [of "take (nat n) records"] by blast
  then show "\<exists>e. load_compression_data records limit = Inl e"
    using a load_loop_limit [of n "[]" records] by (simp add: load_compression_data_def)
qed

theorem load_limit_semantics_witness:
  "load_compression_data [example_record, example_record] None
     = Inr [[\<lparr>form = ''The'', tag = ''DT'', stem = ''the'', label = KEEP\<rparr>,
             \<lparr>form = ''co.'', tag = ''NN'', stem = ''co.'', label = DELETE\<rparr>,
             \<lparr>form = ''filed'', tag = ''VBD'', stem = ''file'', label = KEEP\<rparr>],
            [\<lparr>form = ''The'', tag = ''DT'', stem = ''the'', label = KEEP\<rparr>,
             \<lparr>form = ''co.'', tag = ''NN'', stem = ''co.'', label = DELETE\<rparr>,
             \<lparr>form = ''filed'', tag = ''VBD'', stem = ''file'', label = KEEP\<rparr>]]
   \<and> load_loop (Some 1) [example_record, overlong_record, example_record] []
     = Inr ([[\<lparr>form = ''The'', tag = ''DT'', stem = ''the'', label = KEEP\<rparr>,
              \<lparr>form = ''co.'', tag = ''NN'', stem = ''co.'', label = DELETE\<rparr>,
              \<lparr>form = ''filed'', tag = ''VBD'', stem = ''file'', label = KEEP\<rparr>]],
            [overlong_record, example_record])
   \<and> (\<exists>e. load_compression_data [example_record, overlong_record] (Some 0) = Inl e)
   \<and> (\<exists>e. load_compression_data [example_record, overlong_record] (Some 2) = Inl e)"
proof -
  have ok: "compression_json_to_example example_record
       = Inr [\<lparr>form = ''The'', tag = ''DT'', stem = ''the'', label = KEEP\<rparr>,
              \<lparr>form = ''co.'', tag = ''NN'', stem = ''co.'', label = DELETE\<rparr>,
              \<lparr>form = ''filed'', tag = ''VBD'', stem = ''file'', label = KEEP\<rparr>]"
    by code_simp
  have bad: "compression_json_to_example overlong_record = Inl AssertionError"
    by code_simp
  have t2: "take (nat 2) [example_record, overlong_record] = [example_record, overlong_record]"
    by (simp add: numeral_2_eq_2)
  show ?thesis
    using load_limit_semantics [of None "[example_record, example_record]" 1]
          load_limit_semantics [of "Some 1" "[example_record, overlong_record, example_record]" 1]
          load_limit_semantics [of "Some 0" "[example_record, overlong_record]" 1]
          load_limit_semantics [of "Some 2" "[example_record, overlong_record]" 2]
          ok bad t2
    by (auto simp: map_eq_Cons_conv)
qed

end
